theory Spec2Isabelle
  imports Complex_Main "HOL-Library.Multiset" "HOL-Library.List_Lexorder"
begin

section \<open>Data model of UCVE\<close>

text \<open>
  The source works on tuples and pairs that it reads positionally
  (\<^verbatim>\<open>std::get<0>\<close>, \<^verbatim>\<open>.first\<close>, \<^verbatim>\<open>.second\<close>); the model keeps them as pairs.
  A \<^verbatim>\<open>PartialAction\<close> is a pair of vectors (agent indices, their actions).
  The value of an entry is an \<^verbatim>\<open>Eigen::Vector2d\<close> \<open>[mean, bonus]\<close>; its two
  \<^verbatim>\<open>double\<close> coefficients are idealised as real numbers, so that \<open>+\<close> and
  \<open>sqrt\<close> are the exact operations (no rounding, no NaN, no infinities).
\<close>

type_synonym PartialAction = "nat list \<times> nat list"
type_synonym V = "real \<times> real"
type_synonym Entry = "PartialAction \<times> V"
type_synonym Entries = "Entry list"
type_synonym Rule = "PartialAction \<times> Entries"
type_synonym Rules = "Rule list"

text \<open>Element-wise sum of two value vectors (\<^verbatim>\<open>operator+\<close> of \<^verbatim>\<open>Vector2d\<close>).\<close>

definition vadd :: "V \<Rightarrow> V \<Rightarrow> V" where
  "vadd a b = (fst a + fst b, snd a + snd b)"

subsection \<open>Tag utilities\<close>

text \<open>
  Modelled from the spec: \<^verbatim>\<open>merge\<close> is a tag utility that is not part of the source
  file. The specification describes it as the disjoint-union merge of two tags, which
  assumes no shared agents and produces ascending agent order. It is modelled as
  the two-way merge of the (agent, action) pairs by agent index.
\<close>

fun mergePairs :: "(nat \<times> nat) list \<Rightarrow> (nat \<times> nat) list \<Rightarrow> (nat \<times> nat) list" where
  "mergePairs [] ys = ys"
| "mergePairs xs [] = xs"
| "mergePairs (x # xs) (y # ys) =
     (if fst x < fst y then x # mergePairs xs (y # ys) else y # mergePairs (x # xs) ys)"

definition merge :: "PartialAction \<Rightarrow> PartialAction \<Rightarrow> PartialAction" where
  "merge a b =
     (let z = mergePairs (zip (fst a) (snd a)) (zip (fst b) (snd b))
      in (map fst z, map snd z))"

subsection \<open>Cross-sums\<close>

text \<open>
  \<^verbatim>\<open>crossSum(const Entries &, const Entries &)\<close>: an empty side returns the other side;
  otherwise the outer loop runs over \<open>lhs\<close>, the inner loop over \<open>rhs\<close>, and every pair
  appends one entry (\<open>crossLoop\<close> is the pair of nested loops).
\<close>

definition crossEntry :: "Entry \<Rightarrow> Entry \<Rightarrow> Entry" where
  "crossEntry l r = (merge (fst l) (fst r), vadd (snd l) (snd r))"

definition crossLoop :: "Entries \<Rightarrow> Entries \<Rightarrow> Entries" where
  "crossLoop lhs rhs = concat (map (\<lambda>l. map (\<lambda>r. crossEntry l r) rhs) lhs)"

definition crossSum :: "Entries \<Rightarrow> Entries \<Rightarrow> Entries" where
  "crossSum lhs rhs =
     (if lhs = [] then rhs
      else if rhs = [] then lhs
      else crossLoop lhs rhs)"

text \<open>
  \<^verbatim>\<open>crossSum(const Entries &, const std::vector<const Entries*>)\<close>, the overload on a
  list of pointers. The pointers are only read, so the list of pointers is the list of
  the collections they point to. An empty list returns \<open>lhs\<close>; otherwise the binary
  cross-sum of \<open>lhs\<close> with each collection is appended in turn.
\<close>

definition crossSumList :: "Entries \<Rightarrow> Entries list \<Rightarrow> Entries" where
  "crossSumList lhs rhs =
     (if rhs = [] then lhs else concat (map (\<lambda>p. crossSum lhs p) rhs))"

subsection \<open>Upper-confidence value and bound pruning\<close>

text \<open>
  \<^verbatim>\<open>computeValue(e, x, logtA)\<close>: the mean plus the square root of (bonus plus slack)
  times the (already halved) exploration coefficient.
\<close>

definition computeValue :: "Entry \<Rightarrow> real \<Rightarrow> real \<Rightarrow> real" where
  "computeValue e x logtA = fst (snd e) + sqrt ((snd (snd e) + x) * logtA)"

text \<open>
  \<^verbatim>\<open>std::sort(begin, end, comp)\<close>. The C++ standard leaves the relative order of
  elements that the comparator does not separate unspecified. The model is the insertion
  sort that the common standard libraries run on short ranges: elements are taken
  from left to right and each one is placed before the first already placed element
  that it precedes under \<open>comp\<close>, so elements that \<open>comp\<close> does not separate keep their
  input order.
\<close>

fun insertBy :: "('a \<Rightarrow> 'a \<Rightarrow> bool) \<Rightarrow> 'a \<Rightarrow> 'a list \<Rightarrow> 'a list" where
  "insertBy cmp e [] = [e]"
| "insertBy cmp e (y # ys) = (if cmp e y then e # y # ys else y # insertBy cmp e ys)"

definition sortBy :: "('a \<Rightarrow> 'a \<Rightarrow> bool) \<Rightarrow> 'a list \<Rightarrow> 'a list" where
  "sortBy cmp xs = foldl (\<lambda>acc e. insertBy cmp e acc) [] xs"

text \<open>
  \<^verbatim>\<open>std::unique(begin, end, pred)\<close>: every element that \<open>pred\<close> relates to the last kept
  element is dropped; only runs of consecutive elements are collapsed.
\<close>

fun uniqueBy :: "('a \<Rightarrow> 'a \<Rightarrow> bool) \<Rightarrow> 'a list \<Rightarrow> 'a list" where
  "uniqueBy pred [] = []"
| "uniqueBy pred [x] = [x]"
| "uniqueBy pred (x # y # ys) =
     (if pred x y then uniqueBy pred (x # ys) else x # uniqueBy pred (y # ys))"

text \<open>
  \<^verbatim>\<open>boundPrune(begin, end, x_l, x_u, logtA)\<close> returns the iterator that ends the retained
  range, and every caller erases from that iterator to the end. The model returns the
  retained range \<open>[begin, result)\<close>: a range of fewer than two elements is returned as
  it is; otherwise the range is sorted descending by the value at \<open>x_l\<close>, consecutive
  entries with equal value vectors are collapsed, and from the second position on
  (\<^verbatim>\<open>begin + 1\<close>) every entry whose value at \<open>x_u\<close> is at most the value of the first
  entry at \<open>x_l\<close> is removed (\<^verbatim>\<open>std::remove_if\<close> keeps the order of the others).
\<close>

definition boundPrune :: "real \<Rightarrow> real \<Rightarrow> real \<Rightarrow> Entries \<Rightarrow> Entries" where
  "boundPrune x_l x_u logtA xs =
     (if length xs < 2 then xs
      else
        (case uniqueBy (\<lambda>lhs rhs. snd lhs = snd rhs)
                (sortBy (\<lambda>lhs rhs. computeValue lhs x_l logtA > computeValue rhs x_l logtA) xs) of
           [] \<Rightarrow> []
         | b # rest \<Rightarrow>
             b # filter (\<lambda>e. \<not> computeValue e x_u logtA \<le> computeValue b x_l logtA) rest))"

subsection \<open>Merging two rule tables\<close>

text \<open>
  Modelled from the spec: \<^verbatim>\<open>veccmp\<close> is a utility that is not part of the source file.
  The specification describes it as the lexicographic comparison of two numeric
  sequences, returning an order; it is modelled with the results \<open>-1\<close>, \<open>0\<close>, \<open>1\<close>.
\<close>

fun veccmp :: "nat list \<Rightarrow> nat list \<Rightarrow> int" where
  "veccmp [] [] = 0"
| "veccmp [] (y # ys) = - 1"
| "veccmp (x # xs) [] = 1"
| "veccmp (x # xs) (y # ys) =
     (if x < y then - 1 else if y < x then 1 else veccmp xs ys)"

text \<open>\<^verbatim>\<open>ruleComp\<close> compares the action vectors (\<^verbatim>\<open>.second\<close>) of the two rules' tags only.\<close>

definition ruleComp :: "Rule \<Rightarrow> Rule \<Rightarrow> bool" where
  "ruleComp lhs rhs = (veccmp (snd (fst lhs)) (snd (fst rhs)) < 0)"

text \<open>
  The merge loop of \<^verbatim>\<open>mergePayoffs\<close> over the two sorted tables, with the two loops
  that copy what remains of either side once the other is used up.
\<close>

fun mergeLoop :: "Rules \<Rightarrow> Rules \<Rightarrow> Rules" where
  "mergeLoop [] rs = rs"
| "mergeLoop ls [] = ls"
| "mergeLoop (l # ls) (r # rs) =
     (let first = veccmp (snd (fst l)) (snd (fst r))
      in if first < 0 then l # mergeLoop ls (r # rs)
         else if first > 0 then r # mergeLoop (l # ls) rs
         else (fst l, crossSum (snd l) (snd r)) # mergeLoop ls rs)"

definition mergePayoffs :: "Rules \<Rightarrow> Rules \<Rightarrow> Rules" where
  "mergePayoffs lhs rhs = mergeLoop (sortBy ruleComp lhs) (sortBy ruleComp rhs)"

subsection \<open>Collaborators of the elimination driver\<close>

text \<open>
  Modelled from the spec: \<^verbatim>\<open>match\<close> is a tag utility that is not part of the source
  file. The specification describes it as the compatibility test of two tags: for
  every agent present in both tags the actions agree, and agents present in only one
  tag are unconstrained.
\<close>

definition match :: "PartialAction \<Rightarrow> PartialAction \<Rightarrow> bool" where
  "match a b =
     list_all (\<lambda>kv. case map_of (zip (fst b) (snd b)) (fst kv) of
                       None \<Rightarrow> True
                     | Some v \<Rightarrow> v = snd kv)
       (zip (fst a) (snd a))"

text \<open>
  Modelled from the spec: \<^verbatim>\<open>removeFactor\<close> is a tag utility that is not part of the
  source file. The specification describes its result as the assignment with the
  eliminated agent removed.
\<close>

definition removeFactor :: "PartialAction \<Rightarrow> nat \<Rightarrow> PartialAction" where
  "removeFactor ja agent =
     (let z = filter (\<lambda>kv. fst kv \<noteq> agent) (zip (fst ja) (snd ja))
      in (map fst z, map snd z))"

text \<open>
  Modelled from the spec: the factor graph is not part of the source file. The
  specification lists its contract: the count of agents still present
  (\<^verbatim>\<open>variableSize\<close>), the factor nodes adjacent to an agent, the union of the scopes of
  a list of factor nodes, erasure of nodes, fetch-or-create of the factor node of a
  given scope, and iteration over all factor nodes, each of which owns a rule table.
  A factor node is modelled as the pair of its scope (ascending agent indices) and its
  rules, and the graph as the count of agents and the list of its factor nodes in
  iteration order; a created node is appended at the end. Erasing an agent lowers
  the count by one.
\<close>

type_synonym FactorNode = "nat list \<times> Rules"

record Graph =
  activeVariables :: nat
  factorNodes :: "FactorNode list"

definition variableSize :: "Graph \<Rightarrow> nat" where
  "variableSize g = activeVariables g"

definition getNeighborsOfAgent :: "Graph \<Rightarrow> nat \<Rightarrow> FactorNode list" where
  "getNeighborsOfAgent g agent = filter (\<lambda>n. agent \<in> set (fst n)) (factorNodes g)"

definition getNeighborsOfFactors :: "FactorNode list \<Rightarrow> nat list" where
  "getNeighborsOfFactors fs = sort (remdups (concat (map fst fs)))"

definition eraseAgentAndFactors :: "Graph \<Rightarrow> nat \<Rightarrow> Graph" where
  "eraseAgentAndFactors g agent =
     g\<lparr> factorNodes := filter (\<lambda>n. agent \<notin> set (fst n)) (factorNodes g),
        activeVariables := activeVariables g - 1 \<rparr>"

fun updateRules :: "nat list \<Rightarrow> (Rules \<Rightarrow> Rules) \<Rightarrow> FactorNode list \<Rightarrow> FactorNode list" where
  "updateRules scope f [] = [(scope, f [])]"
| "updateRules scope f (n # ns) =
     (if fst n = scope then (scope, f (snd n)) # ns else n # updateRules scope f ns)"

definition updateFactor :: "Graph \<Rightarrow> nat list \<Rightarrow> (Rules \<Rightarrow> Rules) \<Rightarrow> Graph" where
  "updateFactor g scope f = g\<lparr> factorNodes := updateRules scope f (factorNodes g) \<rparr>"

text \<open>
  Modelled from the spec: the joint-action enumerator is not part of the source file.
  The specification describes it as the single-pass sequence of the assignments to an
  agent subset, built from the action-space sizes, in which the slot of the designated
  skip agent is present but left to the caller; it also gives the index of that slot.
  It is modelled as the list of action vectors with the skip slot at \<open>0\<close>, the first
  slot varying fastest, and as the empty sequence for the empty agent subset.
\<close>

fun enumActions :: "nat list \<Rightarrow> nat list \<Rightarrow> nat \<Rightarrow> nat list list" where
  "enumActions A [] skip = [[]]"
| "enumActions A (a # as) skip =
     (if a = skip then map (\<lambda>r. 0 # r) (enumActions A as skip)
      else concat (map (\<lambda>r. map (\<lambda>v. v # r) [0..<A ! a]) (enumActions A as skip)))"

definition jointActions :: "nat list \<Rightarrow> nat list \<Rightarrow> nat \<Rightarrow> nat list list" where
  "jointActions A agents skip = (if agents = [] then [] else enumActions A agents skip)"

definition getFactorToSkipId :: "nat list \<Rightarrow> nat \<Rightarrow> nat" where
  "getFactorToSkipId agents skip = length (takeWhile (\<lambda>a. a \<noteq> skip) agents)"

subsection \<open>The elimination driver\<close>

text \<open>
  The object state: the action-space sizes \<^verbatim>\<open>A\<close>, the graph \<^verbatim>\<open>graph_\<close>, the halved
  exploration coefficient \<^verbatim>\<open>logtA_\<close> and the accumulator \<^verbatim>\<open>finalFactors_\<close>. The
  constructor halves the coefficient, sizes the graph by \<^verbatim>\<open>A.size()\<close> and starts with
  no final factors; the factor nodes are the ones the caller has populated.
\<close>

record UCVE =
  ucve_A :: "nat list"
  ucve_graph :: Graph
  ucve_logtA :: real
  ucve_finalFactors :: "Entries list"

definition mkUCVE :: "nat list \<Rightarrow> real \<Rightarrow> FactorNode list \<Rightarrow> UCVE" where
  "mkUCVE a logtA nodes =
     \<lparr> ucve_A = a,
       ucve_graph = \<lparr> activeVariables = length a, factorNodes = nodes \<rparr>,
       ucve_logtA = logtA * 0.5,
       ucve_finalFactors = [] \<rparr>"

text \<open>
  \<^verbatim>\<open>std::numeric_limits<double>::max()\<close> and \<^verbatim>\<open>lowest()\<close>, the largest finite double
  and its negation.
\<close>

definition dbl_max :: real where
  "dbl_max = 2 ^ 1024 - 2 ^ 971"

definition lowest :: real where
  "lowest = - dbl_max"

text \<open>\<^verbatim>\<open>getPayoffs\<close>: the entries of every rule whose tag matches the joint action.\<close>

definition getPayoffs :: "Rules \<Rightarrow> PartialAction \<Rightarrow> Entries list" where
  "getPayoffs rules jointAction = map snd (filter (\<lambda>rule. match jointAction (fst rule)) rules)"

text \<open>
  The bounds of \<^verbatim>\<open>removeAgent\<close>: over every factor node that is not adjacent to the
  agent, the largest and the smallest bonus of its entries (starting from \<^verbatim>\<open>lowest()\<close>
  and \<^verbatim>\<open>max()\<close>), summed into \<open>x_u\<close> and \<open>x_l\<close>.
\<close>

definition bonuses :: "FactorNode \<Rightarrow> real list" where
  "bonuses n = concat (map (\<lambda>rule. map (\<lambda>entry. snd (snd entry)) (snd rule)) (snd n))"

definition upperBound :: "FactorNode list \<Rightarrow> real" where
  "upperBound others = foldl (\<lambda>x_u n. x_u + foldl max lowest (bonuses n)) 0 others"

definition lowerBound :: "FactorNode list \<Rightarrow> real" where
  "lowerBound others = foldl (\<lambda>x_l n. x_l + foldl min dbl_max (bonuses n)) 0 others"

text \<open>
  The loop over \<^verbatim>\<open>factors[1..]\<close>: cross-sum with the payoffs of the next factor, and prune
  when the number of entries has grown beyond the last recorded count.
\<close>

fun crossFactors ::
  "real \<Rightarrow> real \<Rightarrow> real \<Rightarrow> PartialAction \<Rightarrow> FactorNode list \<Rightarrow> Entries \<Rightarrow> nat \<Rightarrow> Entries" where
  "crossFactors x_l x_u c ja [] newEntries entries = newEntries"
| "crossFactors x_l x_u c ja (f # fs) newEntries entries =
     (let crossed = crossSumList newEntries (getPayoffs (snd f) ja)
      in if length crossed > entries
         then (let pruned = boundPrune x_l x_u c crossed
               in crossFactors x_l x_u c ja fs pruned (length pruned))
         else crossFactors x_l x_u c ja fs crossed entries)"

text \<open>
  The entries for one joint action: the payoffs of \<^verbatim>\<open>factors[0]\<close> joined, then the loop
  over the other factors. The source reads \<^verbatim>\<open>factors[0]\<close> only inside the loop over the
  joint actions, which runs only when the agent has an adjacent factor.
\<close>

definition combineFactors ::
  "real \<Rightarrow> real \<Rightarrow> real \<Rightarrow> FactorNode list \<Rightarrow> PartialAction \<Rightarrow> Entries" where
  "combineFactors x_l x_u c factors ja =
     (case factors of
        [] \<Rightarrow> []
      | f0 # rest \<Rightarrow>
          (let newEntries = concat (getPayoffs (snd f0) ja)
           in crossFactors x_l x_u c ja rest newEntries (length newEntries)))"

text \<open>Insertion of the eliminated agent and its action into the tag of an entry.\<close>

definition addTag :: "nat \<Rightarrow> nat \<Rightarrow> Entry \<Rightarrow> Entry" where
  "addTag agent agentAction nv =
     (let first = fst (fst nv); second = snd (fst nv);
          i = length (takeWhile (\<lambda>k. k < agent) first)
      in ((take i first @ [agent] @ drop i first,
           take i second @ [agentAction] @ drop i second), snd nv))"

text \<open>
  The loop over the actions of the agent, for one assignment of the other agents: the
  slot of the agent in the joint action is overwritten with each action in turn, and the
  tagged entries are appended to the values (appending nothing when there are none).
\<close>

definition agentValues ::
  "nat list \<Rightarrow> real \<Rightarrow> real \<Rightarrow> real \<Rightarrow> FactorNode list \<Rightarrow> nat list \<Rightarrow> nat \<Rightarrow> nat list \<Rightarrow> Entries" where
  "agentValues A x_l x_u c factors agents agent acts =
     concat (map (\<lambda>agentAction.
                map (addTag agent agentAction)
                  (combineFactors x_l x_u c factors
                     (agents, acts[getFactorToSkipId agents agent := agentAction])))
             [0..<A ! agent])"

text \<open>
  One turn of the loop over the joint actions: a non-empty list of values becomes a new
  rule (tagged with the joint action without the agent) or, in a terminal step, a final
  factor. The source passes the joint action with the slot of the agent still holding
  the last action tried; \<open>removeFactor\<close> drops that slot, so the model passes the
  enumerated vector.
\<close>

definition jointStep ::
  "nat list \<Rightarrow> real \<Rightarrow> real \<Rightarrow> real \<Rightarrow> FactorNode list \<Rightarrow> nat list \<Rightarrow> nat \<Rightarrow> bool
     \<Rightarrow> Rules \<times> Entries list \<Rightarrow> nat list \<Rightarrow> Rules \<times> Entries list" where
  "jointStep A x_l x_u c factors agents agent isFinalFactor acc acts =
     (let vals = agentValues A x_l x_u c factors agents agent acts
      in if vals = [] then acc
         else if \<not> isFinalFactor
              then (fst acc @ [(removeFactor (agents, acts) agent, vals)], snd acc)
              else (fst acc, snd acc @ [vals]))"

definition removeAgent :: "nat \<Rightarrow> UCVE \<Rightarrow> UCVE" where
  "removeAgent agent st =
     (let g = ucve_graph st;
          factors = getNeighborsOfAgent g agent;
          agents = getNeighborsOfFactors factors;
          isFinalFactor = (length agents = 1);
          others = filter (\<lambda>n. agent \<notin> set (fst n)) (factorNodes g);
          x_u = upperBound others;
          x_l = lowerBound others;
          acc = foldl (jointStep (ucve_A st) x_l x_u (ucve_logtA st) factors agents agent isFinalFactor)
                  ([], ucve_finalFactors st) (jointActions (ucve_A st) agents agent);
          newRules = fst acc;
          g1 = eraseAgentAndFactors g agent;
          st1 = st\<lparr> ucve_finalFactors := snd acc \<rparr>
      in if newRules = [] then st1\<lparr> ucve_graph := g1 \<rparr>
         else if \<not> isFinalFactor
              then st1\<lparr> ucve_graph :=
                     updateFactor g1 (filter (\<lambda>a. a \<noteq> agent) agents)
                       (\<lambda>fRules. mergePayoffs fRules newRules) \<rparr>
              else st1\<lparr> ucve_graph := g1 \<rparr>)"

lemma variableSize_removeAgent:
  "variableSize (ucve_graph (removeAgent agent st)) = variableSize (ucve_graph st) - 1"
  by (simp add: removeAgent_def Let_def variableSize_def updateFactor_def eraseAgentAndFactors_def)

subsection \<open>The top-level driver\<close>

text \<open>
  The loop of \<^verbatim>\<open>start\<close>: while an agent is left, the one with the highest remaining
  index is removed. Every step lowers the count of agents by one.
\<close>

function eliminate :: "UCVE \<Rightarrow> UCVE" where
  "eliminate st =
     (if variableSize (ucve_graph st) = 0 then st
      else eliminate (removeAgent (variableSize (ucve_graph st) - 1) st))"
  by pat_completeness auto
termination
  by (relation "measure (\<lambda>st. variableSize (ucve_graph st))")
     (simp_all add: variableSize_removeAgent)

declare eliminate.simps [simp del]

text \<open>
  The result of \<^verbatim>\<open>start\<close>. \<open>EmptyResult\<close> is the value-initialised \<^verbatim>\<open>Result\<close> of
  \<^verbatim>\<open>return {}\<close>; \<open>Chosen e\<close> is the entry that the iterator \<^verbatim>\<open>retval\<close> points to; \<open>Unset\<close>
  marks the dereference of \<^verbatim>\<open>retval\<close> when the selection loop never assigned it.
\<close>

datatype Result = EmptyResult | Chosen Entry | Unset

text \<open>The loop that cross-sums and prunes the final factors (zero bounds).\<close>

definition combineFinal :: "UCVE \<Rightarrow> Entries" where
  "combineFinal st =
     foldl (\<lambda>results fValue. boundPrune 0 0 (ucve_logtA st) (crossSum results fValue))
       [] (ucve_finalFactors st)"

text \<open>
  The selection loop: \<open>max\<close> starts at \<^verbatim>\<open>lowest()\<close>, and an entry replaces the current
  choice only when its value at slack \<open>0\<close> and coefficient \<open>0\<close> is strictly greater.
\<close>

definition selectStep :: "real \<times> Entry option \<Rightarrow> Entry \<Rightarrow> real \<times> Entry option" where
  "selectStep acc e =
     (let itVal = computeValue e 0 0
      in if itVal > fst acc then (itVal, Some e) else acc)"

definition selectBest :: "Entries \<Rightarrow> Result" where
  "selectBest results =
     (case snd (foldl selectStep (lowest, None) results) of
        None \<Rightarrow> Unset
      | Some e \<Rightarrow> Chosen e)"

definition start :: "UCVE \<Rightarrow> Result" where
  "start st =
     (let st' = eliminate st
      in if ucve_finalFactors st' = [] then EmptyResult
         else selectBest (combineFinal st'))"

subsection \<open>Specification-level notions and concrete inputs\<close>

text \<open>
  A rule table over the agent scope \<open>ags\<close>: the tag of every rule assigns exactly the
  agents of the scope (the tables of one factor node).
\<close>

definition scoped :: "nat list \<Rightarrow> Rules \<Rightarrow> bool" where
  "scoped ags rs = list_all (\<lambda>r. fst (fst r) = ags) rs"

text \<open>
  The merge of two rule tables as the specification words it, on tables read as sparse
  functions from tags to entries: a tag on one side only keeps its entries, a tag on
  both sides gets the cross-sum of the entries of the two sides.
\<close>

definition joinRules :: "Rules \<Rightarrow> Rules \<Rightarrow> PartialAction \<Rightarrow> Entries option" where
  "joinRules ls rs t =
     (case map_of ls t of
        None \<Rightarrow> map_of rs t
      | Some a \<Rightarrow> (case map_of rs t of None \<Rightarrow> Some a | Some b \<Rightarrow> Some (crossSum a b)))"

text \<open>
  The end-to-end scenario of the specification: two agents with two actions each, one
  factor over both with the mean payoffs \<open>[[1, 3], [5, 2]]\<close> indexed by (action of agent
  \<open>0\<close>, action of agent \<open>1\<close>), bonus \<open>0\<close> everywhere, exploration coefficient \<open>0\<close>. An
  initial entry carries the empty tag: tags of entries collect the eliminated agents.
  \<open>scenario1\<close> and \<open>scenario2\<close> are the states after the first and the second elimination.
\<close>

definition scenarioRules :: Rules where
  "scenarioRules =
     [(([0, 1], [0, 0]), [(([], []), (1, 0))]),
      (([0, 1], [0, 1]), [(([], []), (3, 0))]),
      (([0, 1], [1, 0]), [(([], []), (5, 0))]),
      (([0, 1], [1, 1]), [(([], []), (2, 0))])]"

definition scenario :: UCVE where
  "scenario = mkUCVE [2, 2] 0 [([0, 1], scenarioRules)]"

definition scenario1 :: UCVE where
  "scenario1 =
     \<lparr> ucve_A = [2, 2],
       ucve_graph = \<lparr> activeVariables = 1,
         factorNodes = [([0],
           [(([0], [0]), [(([1], [0]), (1, 0)), (([1], [1]), (3, 0))]),
            (([0], [1]), [(([1], [0]), (5, 0)), (([1], [1]), (2, 0))])])] \<rparr>,
       ucve_logtA = 0,
       ucve_finalFactors = [] \<rparr>"

definition scenario2 :: UCVE where
  "scenario2 =
     \<lparr> ucve_A = [2, 2],
       ucve_graph = \<lparr> activeVariables = 0, factorNodes = [] \<rparr>,
       ucve_logtA = 0,
       ucve_finalFactors =
         [[(([0, 1], [0, 0]), (1, 0)), (([0, 1], [0, 1]), (3, 0)),
           (([0, 1], [1, 0]), (5, 0)), (([0, 1], [1, 1]), (2, 0))]] \<rparr>"

text \<open>
  A single agent with a single action whose only payoff has the mean
  \<^verbatim>\<open>std::numeric_limits<double>::lowest()\<close>; \<open>degenerate1\<close> is the state after the
  elimination of that agent.
\<close>

definition degenerate :: UCVE where
  "degenerate = mkUCVE [1] 0 [([0], [(([0], [0]), [(([], []), (lowest, 0))])])]"

definition degenerate1 :: UCVE where
  "degenerate1 =
     \<lparr> ucve_A = [1],
       ucve_graph = \<lparr> activeVariables = 0, factorNodes = [] \<rparr>,
       ucve_logtA = 0,
       ucve_finalFactors = [[(([0], [0]), (lowest, 0))]] \<rparr>"

section \<open>Properties of the cross-sum\<close>

lemma nth_concat_uniform:
  "i < length xs \<Longrightarrow> j < length ys \<Longrightarrow>
   concat (map (\<lambda>l. map (f l) ys) xs) ! (i * length ys + j) = f (xs ! i) (ys ! j)"
proof (induction xs arbitrary: i)
  case Nil
  then show ?case by simp
next
  case (Cons x xs)
  show ?case
  proof (cases i)
    case 0
    with Cons.prems show ?thesis by (simp add: nth_append)
  next
    case (Suc k)
    with Cons.prems have k: "k < length xs" by simp
    have "Suc k * length ys + j = length ys + (k * length ys + j)" by simp
    then show ?thesis
      using Suc Cons.IH [OF k Cons.prems(2)] by (simp add: nth_append)
  qed
qed

lemma length_concat_uniform:
  "length (concat (map (\<lambda>l. map (f l) ys) xs)) = length xs * length ys"
  by (induction xs) simp_all

lemma mset_concat_uniform:
  "mset (concat (map (\<lambda>l. map (f l) ys) xs)) =
   image_mset (\<lambda>p. f (fst p) (snd p)) (mset (List.product xs ys))"
  by (induction xs) (simp_all add: multiset.map_comp comp_def)

text \<open>
  C8. The empty collection is the identity of the binary cross-sum: cross-summing any
  collection with the empty one, on either side, returns the collection itself.
\<close>

theorem crossSum_identity:
  "crossSum A [] = A \<and> crossSum [] B = B"
  by (simp add: crossSum_def)

text \<open>
  C3 (as the code has it). For non-empty \<open>A\<close> and \<open>B\<close> the cross-sum has \<open>|A| * |B|\<close>
  entries, and every pair of an entry of \<open>A\<close> (at position \<open>i\<close>) and an entry of \<open>B\<close> (at
  position \<open>j\<close>) contributes one entry of the result, the one at position \<open>i * |B| + j\<close>:
  its value is the element-wise sum of the two values and its tag is the merge of the
  two tags. So the result contains that entry at least once, and as often as there are
  pairs with the same sum and the same merged tag: as multisets, the result is the
  image of the pairs of \<open>A \<times> B\<close>. Nothing is collapsed in the cross-sum.
\<close>

theorem crossSum_size_value:
  assumes "A \<noteq> []" and "B \<noteq> []"
  shows "length (crossSum A B) = length A * length B
       \<and> (\<forall>i < length A. \<forall>j < length B.
            crossSum A B ! (i * length B + j)
              = (merge (fst (A ! i)) (fst (B ! j)), vadd (snd (A ! i)) (snd (B ! j))))
       \<and> (\<forall>a \<in> set A. \<forall>b \<in> set B.
            (merge (fst a) (fst b), vadd (snd a) (snd b)) \<in> set (crossSum A B))
       \<and> mset (crossSum A B)
            = image_mset (\<lambda>p. (merge (fst (fst p)) (fst (snd p)), vadd (snd (fst p)) (snd (snd p))))
                (mset (List.product A B))"
proof -
  have c: "crossSum A B = concat (map (\<lambda>l. map (crossEntry l) B) A)"
    using assms by (simp add: crossSum_def crossLoop_def)
  have 1: "length (crossSum A B) = length A * length B"
    unfolding c by (rule length_concat_uniform)
  have 2: "\<forall>i < length A. \<forall>j < length B.
            crossSum A B ! (i * length B + j)
              = (merge (fst (A ! i)) (fst (B ! j)), vadd (snd (A ! i)) (snd (B ! j)))"
    unfolding c by (simp add: nth_concat_uniform crossEntry_def)
  have 3: "mset (crossSum A B)
            = image_mset (\<lambda>p. (merge (fst (fst p)) (fst (snd p)), vadd (snd (fst p)) (snd (snd p))))
                (mset (List.product A B))"
    unfolding c mset_concat_uniform by (simp add: crossEntry_def)
  have 4: "\<forall>a \<in> set A. \<forall>b \<in> set B.
            (merge (fst a) (fst b), vadd (snd a) (snd b)) \<in> set (crossSum A B)"
    unfolding c by (auto simp: crossEntry_def)
  from 1 2 3 4 show ?thesis by blast
qed

theorem crossSum_size_value_witness:
  "length (crossSum [(([0], [1]), (1, 2)), (([0], [0]), (3, 4))] [(([1], [0]), (10, 20))]) = 2
   \<and> crossSum [(([0], [1]), (1, 2)), (([0], [0]), (3, 4))] [(([1], [0]), (10, 20))] ! 1
       = (([0, 1], [0, 0]), (13, 24))"
proof -
  let ?A = "[(([0], [1]), (1, 2)), (([0], [0]), (3, 4))] :: Entries"
  let ?B = "[(([1], [0]), (10, 20))] :: Entries"
  have a: "?A \<noteq> []" and b: "?B \<noteq> []" by simp_all
  from crossSum_size_value [OF a b]
  have l: "length (crossSum ?A ?B) = length ?A * length ?B"
    and n: "\<forall>i < length ?A. \<forall>j < length ?B.
            crossSum ?A ?B ! (i * length ?B + j)
              = (merge (fst (?A ! i)) (fst (?B ! j)), vadd (snd (?A ! i)) (snd (?B ! j)))"
    by blast+
  from n have "crossSum ?A ?B ! (1 * length ?B + 0)
      = (merge (fst (?A ! 1)) (fst (?B ! 0)), vadd (snd (?A ! 1)) (snd (?B ! 0)))"
    by simp
  then have "crossSum ?A ?B ! 1 = (([0, 1], [0, 0]), (13, 24))"
    by (simp add: merge_def vadd_def)
  with l show ?thesis by simp
qed

text \<open>
  The claim C3 as it is worded, that the result contains exactly one entry with the
  summed value and the merged tag, fails when two pairs have the same sum: with the
  values \<open>(1, 0)\<close>, \<open>(2, 0)\<close> on agent \<open>0\<close> and \<open>(2, 0)\<close>, \<open>(1, 0)\<close> on agent \<open>1\<close>, all under
  action \<open>0\<close>, the tags of the two sides are agent-disjoint, and the result holds the entry
  with the value \<open>(3, 0)\<close> and the tag \<open>([0, 1], [0, 0])\<close> twice.
\<close>

theorem crossSum_exactly_one_counterexample:
  "set (fst (fst ((([0], [0]), (1, 0)) :: Entry))) \<inter> set (fst (fst ((([1], [0]), (2, 0)) :: Entry))) = {}
   \<and> (([0], [0]), (1, 0)) \<in> set ([(([0], [0]), (1, 0)), (([0], [0]), (2, 0))] :: Entries)
   \<and> (([1], [0]), (2, 0)) \<in> set ([(([1], [0]), (2, 0)), (([1], [0]), (1, 0))] :: Entries)
   \<and> (merge ([0], [0]) ([1], [0]), vadd (1, 0) (2, 0)) = (([0, 1], [0, 0]), (3, 0))
   \<and> crossSum [(([0], [0]), (1, 0)), (([0], [0]), (2, 0))] [(([1], [0]), (2, 0)), (([1], [0]), (1, 0))]
        = [(([0, 1], [0, 0]), (3, 0)), (([0, 1], [0, 0]), (2, 0)),
           (([0, 1], [0, 0]), (4, 0)), (([0, 1], [0, 0]), (3, 0))]
   \<and> count (mset (crossSum [(([0], [0]), (1, 0)), (([0], [0]), (2, 0))]
                              [(([1], [0]), (2, 0)), (([1], [0]), (1, 0))]))
        (([0, 1], [0, 0]), (3, 0)) = 2"
  by (simp add: crossSum_def crossLoop_def crossEntry_def merge_def vadd_def)

text \<open>
  C5. The overload on a list of collections is meant to treat the list as one joined
  collection. It does so as a multiset whenever no listed collection is empty
  (\<open>crossSumList_mset_nonempty\<close> below); a listed empty collection, however, makes the
  binary cross-sum return \<open>lhs\<close> itself, which is then appended to the result: with
  \<open>lhs = [a]\<close> and the list \<open>[[], [b]]\<close> the overload returns \<open>[a, a + b]\<close>, while the
  cross-sum with the joined collection \<open>[b]\<close> is \<open>[a + b]\<close>.
\<close>

theorem crossSumList_empty_member:
  "crossSumList [(([0], [0]), (1, 0))] [[], [(([1], [0]), (2, 0))]]
     = [(([0], [0]), (1, 0)), (([0, 1], [0, 0]), (3, 0))]
   \<and> crossSum [(([0], [0]), (1, 0))] (concat [[], [(([1], [0]), (2, 0))]])
     = [(([0, 1], [0, 0]), (3, 0))]"
  by (simp add: crossSumList_def crossSum_def crossLoop_def crossEntry_def merge_def vadd_def)

lemma mset_crossLoop_append:
  "mset (crossLoop A (p @ q)) = mset (crossLoop A p) + mset (crossLoop A q)"
  by (induction A) (simp_all add: crossLoop_def)

lemma crossLoop_Nil: "crossLoop A [] = []"
  by (induction A) (simp_all add: crossLoop_def)

lemma mset_crossLoop_concat:
  "mset (concat (map (crossLoop A) L)) = mset (crossLoop A (concat L))"
  by (induction L) (simp_all add: mset_crossLoop_append crossLoop_Nil)

lemma crossSumList_mset_nonempty:
  assumes "[] \<notin> set L"
  shows "mset (crossSumList A L) = mset (crossSum A (concat L))"
proof (cases "L = [] \<or> A = []")
  case True
  then show ?thesis by (auto simp: crossSumList_def crossSum_def)
next
  case False
  then have A: "A \<noteq> []" and L: "L \<noteq> []" by simp_all
  from L assms have c: "concat L \<noteq> []" by (cases L) auto
  have m: "map (crossSum A) L = map (crossLoop A) L"
    using assms A by (intro map_cong) (auto simp: crossSum_def crossLoop_def)
  have "crossSumList A L = concat (map (crossSum A) L)"
    using L by (simp add: crossSumList_def)
  then have "crossSumList A L = concat (map (crossLoop A) L)"
    by (simp only: m)
  moreover have "crossSum A (concat L) = crossLoop A (concat L)"
    unfolding crossSum_def crossLoop_def using A c by (simp only: if_False)
  ultimately show ?thesis by (simp add: mset_crossLoop_concat)
qed

section \<open>Properties of bound pruning\<close>

lemma set_insertBy: "set (insertBy cmp e ys) = insert e (set ys)"
  by (induction ys) auto

lemma mset_insertBy: "mset (insertBy cmp e ys) = add_mset e (mset ys)"
  by (induction ys) auto

lemma mset_foldl_insertBy:
  "mset (foldl (\<lambda>acc e. insertBy cmp e acc) acc xs) = mset acc + mset xs"
  by (induction xs arbitrary: acc) (simp_all add: mset_insertBy)

lemma mset_sortBy: "mset (sortBy cmp xs) = mset xs"
  by (simp add: sortBy_def mset_foldl_insertBy)

lemma set_sortBy: "set (sortBy cmp xs) = set xs"
  using mset_sortBy [of cmp xs] by (metis set_mset_mset)

lemma length_sortBy: "length (sortBy cmp xs) = length xs"
  using mset_sortBy [of cmp xs] by (metis size_mset)

lemma sorted_insertBy_key:
  "sorted_wrt (\<lambda>a b. k b \<le> (k a :: real)) ys \<Longrightarrow>
   sorted_wrt (\<lambda>a b. k b \<le> k a) (insertBy (\<lambda>l r. k l > k r) e ys)"
  by (induction ys) (auto simp: set_insertBy)

lemma sorted_foldl_insertBy_key:
  "sorted_wrt (\<lambda>a b. k b \<le> (k a :: real)) acc \<Longrightarrow>
   sorted_wrt (\<lambda>a b. k b \<le> k a) (foldl (\<lambda>acc e. insertBy (\<lambda>l r. k l > k r) e acc) acc xs)"
  by (induction xs arbitrary: acc) (simp_all add: sorted_insertBy_key)

lemma sorted_sortBy_key:
  "sorted_wrt (\<lambda>a b. k b \<le> (k a :: real)) (sortBy (\<lambda>l r. k l > k r) xs)"
  by (simp add: sortBy_def sorted_foldl_insertBy_key)

lemma uniqueBy_Cons:
  "\<exists>zs. uniqueBy p (x # xs) = x # zs \<and> set zs \<subseteq> set xs"
proof (induction xs arbitrary: x)
  case Nil
  then show ?case by simp
next
  case (Cons y ys)
  show ?case
  proof (cases "p x y")
    case True
    with Cons [of x] show ?thesis by auto
  next
    case False
    with Cons [of y] show ?thesis by auto
  qed
qed

lemma uniqueBy_snd_covers:
  fixes xs :: "('a \<times> 'b) list"
  shows "e \<in> set xs \<Longrightarrow> \<exists>k \<in> set (uniqueBy (\<lambda>l r. snd l = snd r) xs). snd k = snd e"
proof (induction "\<lambda>(l :: 'a \<times> 'b) (r :: 'a \<times> 'b). snd l = snd r" xs rule: uniqueBy.induct)
  case 1
  then show ?case by simp
next
  case (2 x)
  then show ?case by simp
next
  case (3 x y ys)
  show ?case
  proof (cases "snd x = snd y")
    case True
    then have u: "uniqueBy (\<lambda>l r. snd l = snd r) (x # y # ys) = uniqueBy (\<lambda>l r. snd l = snd r) (x # ys)"
      by simp
    from 3(3) consider "e = y" | "e \<in> set (x # ys)" by auto
    then show ?thesis
    proof cases
      case 1
      from uniqueBy_Cons [of "\<lambda>l r. snd l = snd r" x ys]
      have "x \<in> set (uniqueBy (\<lambda>l r. snd l = snd r) (x # ys))" by auto
      with 1 True u show ?thesis by auto
    next
      case 2
      with 3(1) [OF True] u show ?thesis by simp
    qed
  next
    case False
    then have u: "uniqueBy (\<lambda>l r. snd l = snd r) (x # y # ys) = x # uniqueBy (\<lambda>l r. snd l = snd r) (y # ys)"
      by simp
    from 3(3) consider "e = x" | "e \<in> set (y # ys)" by auto
    then show ?thesis
    proof cases
      case 1
      with u show ?thesis by simp
    next
      case 2
      with 3(2) [OF False] u show ?thesis by auto
    qed
  qed
qed

lemma computeValue_snd: "snd k = snd e \<Longrightarrow> computeValue k x c = computeValue e x c"
  by (simp add: computeValue_def)

lemma computeValue_mono: "0 \<le> c \<Longrightarrow> x \<le> y \<Longrightarrow> computeValue e x c \<le> computeValue e y c"
  by (simp add: computeValue_def mult_right_mono)

lemma boundPrune_shape:
  assumes "2 \<le> length xs"
  shows "\<exists>b zs. uniqueBy (\<lambda>lhs rhs. snd lhs = snd rhs)
                (sortBy (\<lambda>lhs rhs. computeValue lhs x_l c > computeValue rhs x_l c) xs) = b # zs
          \<and> b \<in> set xs \<and> set zs \<subseteq> set xs
          \<and> (\<forall>e \<in> set xs. computeValue e x_l c \<le> computeValue b x_l c)
          \<and> (\<forall>e \<in> set xs. \<exists>k \<in> set (b # zs). snd k = snd e)
          \<and> boundPrune x_l x_u c xs
               = b # filter (\<lambda>e. \<not> computeValue e x_u c \<le> computeValue b x_l c) zs"
proof -
  let ?k = "\<lambda>e. computeValue e x_l c"
  let ?s = "sortBy (\<lambda>lhs rhs. ?k lhs > ?k rhs) xs"
  have "length ?s = length xs" by (rule length_sortBy)
  with assms obtain b ss where s: "?s = b # ss" by (cases ?s) auto
  from uniqueBy_Cons [of "\<lambda>lhs rhs. snd lhs = snd rhs" b ss]
  obtain zs where u: "uniqueBy (\<lambda>lhs rhs. snd lhs = snd rhs) ?s = b # zs" and z: "set zs \<subseteq> set ss"
    unfolding s by blast
  have setd: "set xs = insert b (set ss)"
    using set_sortBy [of "\<lambda>lhs rhs. ?k lhs > ?k rhs" xs] s by simp
  have srt: "sorted_wrt (\<lambda>a b. ?k b \<le> ?k a) (b # ss)"
    using sorted_sortBy_key [of ?k xs] s by simp
  have best: "\<forall>e \<in> set xs. ?k e \<le> ?k b"
    using srt setd by auto
  have cov: "\<forall>e \<in> set xs. \<exists>k \<in> set (b # zs). snd k = snd e"
  proof
    fix e assume "e \<in> set xs"
    then have "e \<in> set ?s" by (simp add: set_sortBy)
    from uniqueBy_snd_covers [OF this] u show "\<exists>k \<in> set (b # zs). snd k = snd e" by simp
  qed
  have bp: "boundPrune x_l x_u c xs
               = b # filter (\<lambda>e. \<not> computeValue e x_u c \<le> computeValue b x_l c) zs"
    using assms u by (simp add: boundPrune_def)
  from u setd z best cov bp show ?thesis by auto
qed

text \<open>
  C1 (as the code has it). On a non-empty candidate list the best-ranked candidate \<open>b\<close>
  (an entry of largest value at \<open>x_l\<close>) is always retained, at the first position.
  An entry is discarded only if a retained entry has the same value vector (it was
  collapsed as a duplicate) or its optimistic value \<open>computeValue e x_u c\<close> is at
  most the pessimistic value \<open>computeValue b x_l c\<close> of the retained best-ranked
  candidate. Consequently, for a non-negative coefficient and every true slack \<open>x\<close>
  between the bounds, every candidate is matched or beaten at \<open>x\<close> by a retained one, so
  the largest achievable value is never pruned away.
\<close>

theorem boundPrune_safety:
  assumes "xs \<noteq> []"
  shows "\<exists>b rest. boundPrune x_l x_u c xs = b # rest
          \<and> b \<in> set xs \<and> set rest \<subseteq> set xs
          \<and> (\<forall>e \<in> set xs. computeValue e x_l c \<le> computeValue b x_l c)
          \<and> (\<forall>e \<in> set xs. e \<notin> set (b # rest) \<longrightarrow>
                (\<exists>k \<in> set (b # rest). snd k = snd e)
                \<or> computeValue e x_u c \<le> computeValue b x_l c)
          \<and> (0 \<le> c \<and> x_l \<le> x \<and> x \<le> x_u \<longrightarrow>
                (\<forall>e \<in> set xs. \<exists>k \<in> set (b # rest). computeValue e x c \<le> computeValue k x c))"
proof (cases "2 \<le> length xs")
  case False
  then have "length xs < 2" by simp
  moreover have "0 < length xs" using assms by simp
  ultimately have "length xs = Suc 0" by arith
  then obtain b where xs: "xs = [b]" by (auto simp: length_Suc_conv)
  have "boundPrune x_l x_u c xs = [b]" by (simp add: xs boundPrune_def)
  then show ?thesis using xs by auto
next
  case True
  from boundPrune_shape [OF True, of x_l c x_u]
  obtain b zs where b: "b \<in> set xs" and z: "set zs \<subseteq> set xs"
    and best: "\<forall>e \<in> set xs. computeValue e x_l c \<le> computeValue b x_l c"
    and cov: "\<forall>e \<in> set xs. \<exists>k \<in> set (b # zs). snd k = snd e"
    and bp: "boundPrune x_l x_u c xs
               = b # filter (\<lambda>e. \<not> computeValue e x_u c \<le> computeValue b x_l c) zs"
    by blast
  let ?rest = "filter (\<lambda>e. \<not> computeValue e x_u c \<le> computeValue b x_l c) zs"
  have disc: "(\<exists>k \<in> set (b # ?rest). snd k = snd e) \<or> computeValue e x_u c \<le> computeValue b x_l c"
    if e: "e \<in> set xs" for e
  proof -
    from cov e obtain k where k: "k \<in> set (b # zs)" and ke: "snd k = snd e" by blast
    show ?thesis
    proof (cases "k \<in> set (b # ?rest)")
      case True
      with ke show ?thesis by blast
    next
      case False
      with k have "computeValue k x_u c \<le> computeValue b x_l c" by auto
      with computeValue_snd [OF ke] show ?thesis by simp
    qed
  qed
  have safe: "\<exists>k \<in> set (b # ?rest). computeValue e x c \<le> computeValue k x c"
    if e: "e \<in> set xs" and c: "0 \<le> c" and lo: "x_l \<le> x" and hi: "x \<le> x_u" for e
  proof -
    from disc [OF e] show ?thesis
    proof
      assume "\<exists>k \<in> set (b # ?rest). snd k = snd e"
      then obtain k where kin: "k \<in> set (b # ?rest)" and "snd k = snd e" by blast
      then have "computeValue e x c \<le> computeValue k x c"
        using computeValue_snd [of k e x c] by simp
      with kin show ?thesis by blast
    next
      assume d: "computeValue e x_u c \<le> computeValue b x_l c"
      have "computeValue e x c \<le> computeValue e x_u c" by (rule computeValue_mono [OF c hi])
      also note d
      also have "computeValue b x_l c \<le> computeValue b x c" by (rule computeValue_mono [OF c lo])
      finally have "computeValue e x c \<le> computeValue b x c" .
      then show ?thesis by (intro bexI [of _ b]) simp_all
    qed
  qed
  have sub: "set ?rest \<subseteq> set xs" using z by auto
  show ?thesis
    using bp b sub best disc safe by blast
qed

theorem boundPrune_safety_witness:
  "[(([0], [0]), (5, 1)), (([0], [1]), (4, 4)), (([0], [2]), (3, 0))] \<noteq> ([] :: Entries)
   \<and> (\<exists>b. boundPrune 0 0 1 [(([0], [0]), (5, 1)), (([0], [1]), (4, 4)), (([0], [2]), (3, 0))] = [b]
          \<and> b = (([0], [0]), (5, 1)))"
proof -
  let ?xs = "[(([0], [0]), (5, 1)), (([0], [1]), (4, 4)), (([0], [2]), (3, 0))] :: Entries"
  have h: "?xs \<noteq> []" by simp
  from boundPrune_safety [OF h, of 0 0 1 0]
  obtain b rest where br: "boundPrune 0 0 1 ?xs = b # rest"
    and best: "\<forall>e \<in> set ?xs. computeValue e 0 1 \<le> computeValue b 0 1"
    by blast
  have "boundPrune 0 0 1 ?xs = [(([0], [0]), (5, 1))]"
    by (simp add: boundPrune_def sortBy_def computeValue_def)
  with h br show ?thesis by simp
qed

text \<open>
  The claim C1 as it is worded fails on duplicates: of two entries with different tags
  and the same value vector \<open>(5, 0)\<close> the second is discarded although its optimistic
  value \<open>6\<close> (at \<open>x_u = 1\<close>) exceeds the pessimistic value \<open>5\<close> of the retained
  best-ranked entry.
\<close>

theorem boundPrune_discard_counterexample:
  "(([0], [1]), (5, 0)) \<in> set [(([0], [0]), (5, 0)), (([0], [1]), (5, 0)) :: Entry]
   \<and> boundPrune 0 1 1 [(([0], [0]), (5, 0)), (([0], [1]), (5, 0))] = [(([0], [0]), (5, 0))]
   \<and> (([0], [1]), (5, 0)) \<notin> set (boundPrune 0 1 1 [(([0], [0]), (5, 0)), (([0], [1]), (5, 0))])
   \<and> \<not> computeValue (([0], [1]), (5, 0)) 1 1 \<le> computeValue (([0], [0]), (5, 0)) 0 1"
  by (simp add: boundPrune_def sortBy_def computeValue_def)

lemma sqrt_9_16: "sqrt (9 / 16) = 3 / 4"
  by (rule real_sqrt_unique) (simp_all add: power2_eq_square)

lemma sqrt_25_16: "sqrt (25 / 16) = 5 / 4"
  by (rule real_sqrt_unique) (simp_all add: power2_eq_square)

text \<open>
  C6. Only consecutive duplicates are collapsed, and the sort orders by the value at \<open>x_l\<close>,
  not by the value vector: entries with different value vectors and the same value at
  \<open>x_l\<close> can stand between two duplicates. With \<open>x_l = 0\<close>, \<open>x_u = 9/16\<close> and coefficient
  \<open>1\<close>, the entries \<open>(5, 0)\<close>, \<open>(4, 1)\<close>, \<open>(5, 0)\<close> all have the value \<open>5\<close> at \<open>x_l\<close>; the sort
  leaves them in place, no two neighbours are equal, and the optimistic values
  \<open>5.75\<close> and \<open>5.25\<close> exceed \<open>5\<close>: all three are retained, two of them with the same
  value vector.
\<close>

theorem boundPrune_keeps_duplicates:
  "boundPrune 0 (9 / 16) 1 [(([0], [0]), (5, 0)), (([0], [1]), (4, 1)), (([0], [2]), (5, 0))]
     = [(([0], [0]), (5, 0)), (([0], [1]), (4, 1)), (([0], [2]), (5, 0))]
   \<and> snd ((([0], [0]), (5, 0)) :: Entry) = snd ((([0], [2]), (5, 0)) :: Entry)"
  by (simp add: boundPrune_def sortBy_def computeValue_def sqrt_9_16 sqrt_25_16)

section \<open>Properties of the payoff merge\<close>

lemma veccmp_less: "veccmp xs ys < 0 \<longleftrightarrow> xs < ys"
  by (induction xs ys rule: veccmp.induct) auto

lemma veccmp_greater: "0 < veccmp xs ys \<longleftrightarrow> ys < xs"
  by (induction xs ys rule: veccmp.induct) auto

lemma veccmp_refl: "veccmp xs xs = 0"
  by (induction xs) auto

lemma ruleComp_less: "ruleComp = (\<lambda>l r. snd (fst l) < snd (fst r))"
  by (simp add: ruleComp_def veccmp_less fun_eq_iff)

lemma sorted_insertBy_less:
  fixes k :: "'a \<Rightarrow> 'b::linorder"
  shows "sorted (map k ys) \<Longrightarrow> sorted (map k (insertBy (\<lambda>l r. k l < k r) e ys))"
  by (induction ys) (auto simp: set_insertBy)

lemma sorted_foldl_insertBy_less:
  fixes k :: "'a \<Rightarrow> 'b::linorder"
  shows "sorted (map k acc) \<Longrightarrow>
   sorted (map k (foldl (\<lambda>acc e. insertBy (\<lambda>l r. k l < k r) e acc) acc xs))"
  by (induction xs arbitrary: acc) (simp_all add: sorted_insertBy_less)

lemma sorted_sortBy_less:
  fixes k :: "'a \<Rightarrow> 'b::linorder"
  shows "sorted (map k (sortBy (\<lambda>l r. k l < k r) xs))"
  by (simp add: sortBy_def sorted_foldl_insertBy_less)

lemma scoped_tag: "scoped ags rs \<Longrightarrow> r \<in> set rs \<Longrightarrow> fst r = (ags, snd (fst r))"
  by (auto simp: scoped_def list_all_iff prod_eq_iff)

lemma map_of_above:
  assumes "scoped ags (l # rs)" and "\<forall>r \<in> set rs. snd (fst l) < snd (fst r)"
  shows "map_of rs (fst l) = None"
proof -
  have "fst l \<notin> fst ` set rs"
  proof
    assume "fst l \<in> fst ` set rs"
    then obtain r where "r \<in> set rs" and "fst r = fst l" by auto
    with assms(2) show False by auto
  qed
  then show ?thesis by (simp add: map_of_eq_None_iff)
qed

lemma mergeLoop_keys:
  "set (map (\<lambda>r. snd (fst r)) (mergeLoop ls rs))
     = set (map (\<lambda>r. snd (fst r)) ls) \<union> set (map (\<lambda>r. snd (fst r)) rs)"
  by (induction ls rs rule: mergeLoop.induct)
     (auto simp: Let_def veccmp_less veccmp_greater)

lemma mergeLoop_sorted:
  "sorted_wrt (<) (map (\<lambda>r. snd (fst r)) ls) \<Longrightarrow> sorted_wrt (<) (map (\<lambda>r. snd (fst r)) rs) \<Longrightarrow>
   sorted_wrt (<) (map (\<lambda>r. snd (fst r)) (mergeLoop ls rs))"
proof (induction ls rs rule: mergeLoop.induct)
  case (1 rs)
  then show ?case by simp
next
  case (2 v va)
  then show ?case by simp
next
  case (3 l ls r rs)
  let ?k = "\<lambda>r :: Rule. snd (fst r)"
  consider (lt) "?k l < ?k r" | (gt) "?k r < ?k l" | (eq) "?k l = ?k r" by fastforce
  then show ?case
  proof cases
    case lt
    then have m: "mergeLoop (l # ls) (r # rs) = l # mergeLoop ls (r # rs)"
      by (simp add: veccmp_less)
    have "sorted_wrt (<) (map ?k (mergeLoop ls (r # rs)))"
      using 3(1) [OF refl] lt 3(4,5) by (simp add: veccmp_less)
    moreover have "\<forall>x \<in> set (map ?k (mergeLoop ls (r # rs))). ?k l < x"
      unfolding mergeLoop_keys using lt 3(4,5) by auto
    ultimately show ?thesis unfolding m by simp
  next
    case gt
    then have nlt: "\<not> ?k l < ?k r" by simp
    with gt have m: "mergeLoop (l # ls) (r # rs) = r # mergeLoop (l # ls) rs"
      by (simp add: veccmp_less veccmp_greater)
    have "sorted_wrt (<) (map ?k (mergeLoop (l # ls) rs))"
      using 3(2) [OF refl] nlt gt 3(4,5) by (simp add: veccmp_less veccmp_greater)
    moreover have "\<forall>x \<in> set (map ?k (mergeLoop (l # ls) rs)). ?k r < x"
      unfolding mergeLoop_keys using gt 3(4,5) by auto
    ultimately show ?thesis unfolding m by simp
  next
    case eq
    then have m: "mergeLoop (l # ls) (r # rs) = (fst l, crossSum (snd l) (snd r)) # mergeLoop ls rs"
      by (simp add: veccmp_less veccmp_greater)
    have "sorted_wrt (<) (map ?k (mergeLoop ls rs))"
      using 3(3) [OF refl] eq 3(4,5) by (simp add: veccmp_less veccmp_greater)
    moreover have "\<forall>x \<in> set (map ?k (mergeLoop ls rs)). ?k l < x"
      unfolding mergeLoop_keys using eq 3(4,5) by auto
    ultimately show ?thesis unfolding m by simp
  qed
qed

lemma scoped_Cons: "scoped ags (r # rs) \<longleftrightarrow> fst (fst r) = ags \<and> scoped ags rs"
  by (simp add: scoped_def)

lemma map_of_Cons_rule: "map_of (r # rs) t = (if t = fst r then Some (snd r) else map_of rs t)"
  by (cases r) auto

lemma mergeLoop_map_of:
  assumes "scoped ags ls" and "scoped ags rs"
    and "sorted_wrt (<) (map (\<lambda>r. snd (fst r)) ls)"
    and "sorted_wrt (<) (map (\<lambda>r. snd (fst r)) rs)"
  shows "map_of (mergeLoop ls rs) t = joinRules ls rs t"
  using assms
proof (induction ls rs rule: mergeLoop.induct)
  case (1 rs)
  then show ?case by (simp add: joinRules_def)
next
  case (2 v va)
  then show ?case by (simp add: joinRules_def split: option.splits)
next
  case (3 l ls r rs)
  let ?k = "\<lambda>r :: Rule. snd (fst r)"
  from 3(4,5) have sl: "scoped ags ls" and sr: "scoped ags rs"
    and al: "fst (fst l) = ags" and ar: "fst (fst r) = ags"
    by (simp_all add: scoped_Cons)
  from 3(6,7) have ol: "sorted_wrt (<) (map ?k ls)" and orr: "sorted_wrt (<) (map ?k rs)"
    and bl: "\<forall>x \<in> set ls. ?k l < ?k x" and br: "\<forall>x \<in> set rs. ?k r < ?k x"
    by simp_all
  consider (lt) "?k l < ?k r" | (gt) "?k r < ?k l" | (eq) "?k l = ?k r" by fastforce
  then show ?case
  proof cases
    case lt
    then have m: "mergeLoop (l # ls) (r # rs) = l # mergeLoop ls (r # rs)"
      by (simp add: veccmp_less)
    have ih: "map_of (mergeLoop ls (r # rs)) t = joinRules ls (r # rs) t"
      using 3(1) [OF refl _ sl 3(5) ol 3(7)] lt by (simp add: veccmp_less)
    have "\<forall>x \<in> set (r # rs). ?k l < ?k x" using lt br by auto
    moreover have "scoped ags (l # r # rs)" using al 3(5) by (simp add: scoped_Cons)
    ultimately have none: "map_of (r # rs) (fst l) = None" by (rule map_of_above [rotated])
    show ?thesis
    proof (cases "t = fst l")
      case True
      then show ?thesis unfolding m using none
        by (simp add: joinRules_def map_of_Cons_rule del: map_of.simps)
    next
      case False
      then show ?thesis unfolding m using ih
        by (simp add: joinRules_def map_of_Cons_rule [of l] del: map_of.simps)
    qed
  next
    case gt
    then have nlt: "\<not> ?k l < ?k r" by simp
    with gt have m: "mergeLoop (l # ls) (r # rs) = r # mergeLoop (l # ls) rs"
      by (simp add: veccmp_less veccmp_greater)
    have ih: "map_of (mergeLoop (l # ls) rs) t = joinRules (l # ls) rs t"
      using 3(2) [OF refl _ _ 3(4) sr 3(6) orr] nlt gt by (simp add: veccmp_less veccmp_greater)
    have "\<forall>x \<in> set (l # ls). ?k r < ?k x" using gt bl by auto
    moreover have "scoped ags (r # l # ls)" using ar 3(4) by (simp add: scoped_Cons)
    ultimately have none: "map_of (l # ls) (fst r) = None" by (rule map_of_above [rotated])
    show ?thesis
    proof (cases "t = fst r")
      case True
      then show ?thesis unfolding m using none
        by (simp add: joinRules_def map_of_Cons_rule [of r] del: map_of.simps)
    next
      case False
      then show ?thesis unfolding m using ih
        by (simp add: joinRules_def map_of_Cons_rule [of r] del: map_of.simps split: option.splits)
    qed
  next
    case eq
    then have m: "mergeLoop (l # ls) (r # rs) = (fst l, crossSum (snd l) (snd r)) # mergeLoop ls rs"
      by (simp add: veccmp_less veccmp_greater)
    have ih: "map_of (mergeLoop ls rs) t = joinRules ls rs t"
      using 3(3) [OF refl _ _ sl sr ol orr] eq by (simp add: veccmp_less veccmp_greater)
    have tags: "fst l = fst r" using eq al ar by (simp add: prod_eq_iff)
    show ?thesis
    proof (cases "t = fst l")
      case True
      then show ?thesis unfolding m using tags
        by (simp add: joinRules_def map_of_Cons_rule del: map_of.simps)
    next
      case False
      with tags have ml: "map_of (l # ls) t = map_of ls t" and mr: "map_of (r # rs) t = map_of rs t"
        by (simp_all add: map_of_Cons_rule del: map_of.simps)
      have "joinRules (l # ls) (r # rs) t = joinRules ls rs t"
        unfolding joinRules_def ml mr ..
      with False ih show ?thesis unfolding m
        by (simp add: map_of_Cons_rule del: map_of.simps)
    qed
  qed
qed

lemma distinct_map_snd_fst:
  "distinct (map (\<lambda>r. snd (fst r)) xs) \<Longrightarrow> distinct (map fst xs)"
proof -
  assume "distinct (map (\<lambda>r. snd (fst r)) xs)"
  then have "distinct xs" and "inj_on (\<lambda>r. snd (fst r)) (set xs)"
    by (simp_all add: distinct_map)
  moreover from this(2) have "inj_on fst (set xs)"
    by (auto simp: inj_on_def)
  ultimately show ?thesis by (simp add: distinct_map)
qed

lemma scoped_distinct_keys:
  assumes "scoped ags xs" and "distinct (map fst xs)"
  shows "distinct (map (\<lambda>r. snd (fst r)) xs)"
proof -
  from assms(2) have d: "distinct xs" and i: "inj_on fst (set xs)"
    by (simp_all add: distinct_map)
  have "inj_on (\<lambda>r. snd (fst r)) (set xs)"
  proof (rule inj_onI)
    fix a b assume a: "a \<in> set xs" and b: "b \<in> set xs" and e: "snd (fst a) = snd (fst b)"
    from scoped_tag [OF assms(1) a] scoped_tag [OF assms(1) b] e have "fst a = fst b" by simp
    with i a b show "a = b" by (simp add: inj_on_def)
  qed
  with d show ?thesis by (simp add: distinct_map)
qed

lemma sortBy_ruleComp_props:
  assumes "scoped ags xs" and "distinct (map fst xs)"
  shows "scoped ags (sortBy ruleComp xs)"
    and "sorted_wrt (<) (map (\<lambda>r. snd (fst r)) (sortBy ruleComp xs))"
    and "map_of (sortBy ruleComp xs) = map_of xs"
proof -
  let ?s = "sortBy ruleComp xs"
  have st: "set ?s = set xs" by (rule set_sortBy)
  show sc: "scoped ags ?s" using assms(1) st by (simp add: scoped_def list_all_iff)
  have "mset (map fst ?s) = mset (map fst xs)" by (simp add: mset_sortBy)
  then have d: "distinct (map fst ?s)" using assms(2) by (metis mset_eq_imp_distinct_iff)
  have "sorted (map (\<lambda>r. snd (fst r)) ?s)"
    unfolding ruleComp_less by (rule sorted_sortBy_less)
  moreover have "distinct (map (\<lambda>r. snd (fst r)) ?s)"
    using sc d by (rule scoped_distinct_keys)
  ultimately show "sorted_wrt (<) (map (\<lambda>r. snd (fst r)) ?s)"
    by (simp add: strict_sorted_iff)
  show "map_of ?s = map_of xs"
    using d assms(2) st by (simp add: map_of_inject_set)
qed

lemma mergePayoffs_map_of:
  assumes "scoped ags lhs" and "scoped ags rhs"
    and "distinct (map fst lhs)" and "distinct (map fst rhs)"
  shows "map_of (mergePayoffs lhs rhs) t = joinRules lhs rhs t"
    and "distinct (map fst (mergePayoffs lhs rhs))"
proof -
  note l = sortBy_ruleComp_props [OF assms(1,3)]
  note r = sortBy_ruleComp_props [OF assms(2,4)]
  have "map_of (mergePayoffs lhs rhs) t = joinRules (sortBy ruleComp lhs) (sortBy ruleComp rhs) t"
    unfolding mergePayoffs_def by (rule mergeLoop_map_of [OF l(1) r(1) l(2) r(2)])
  then show "map_of (mergePayoffs lhs rhs) t = joinRules lhs rhs t"
    unfolding joinRules_def l(3) r(3) .
  have "sorted_wrt (<) (map (\<lambda>r. snd (fst r)) (mergePayoffs lhs rhs))"
    unfolding mergePayoffs_def by (rule mergeLoop_sorted [OF l(2) r(2)])
  then have "distinct (map (\<lambda>r. snd (fst r)) (mergePayoffs lhs rhs))"
    by (simp add: strict_sorted_iff)
  then show "distinct (map fst (mergePayoffs lhs rhs))" by (rule distinct_map_snd_fst)
qed

lemma mergePayoffs_single:
  "mergePayoffs [(tg, [(e1, (2, 0))])] [(tg, [(e2, (3, 0))])] = [(tg, [(merge e1 e2, (5, 0))])]"
  by (simp add: mergePayoffs_def sortBy_def veccmp_refl crossSum_def crossLoop_def crossEntry_def vadd_def)

text \<open>
  C4 (as the code has it). For two rule tables over a common agent scope, each with
  pairwise distinct tags: every rule whose tag occurs on one side only is passed through
  unchanged; for every tag on both sides the result holds the rule with that tag and
  the cross-sum of the entries of the two sides; the tags of the result are pairwise
  distinct (so that rule is the only one under its tag) and are exactly the tags of the
  two sides. In particular two single-rule tables with the same tag and the entries
  \<open>[(2, 0)]\<close> and \<open>[(3, 0)]\<close> merge into one rule with the entries \<open>[(5, 0)]\<close>.
\<close>

theorem mergePayoffs_correct:
  assumes "scoped ags lhs" and "scoped ags rhs"
    and "distinct (map fst lhs)" and "distinct (map fst rhs)"
  shows "(\<forall>r \<in> set lhs. fst r \<notin> fst ` set rhs \<longrightarrow> r \<in> set (mergePayoffs lhs rhs))
       \<and> (\<forall>r \<in> set rhs. fst r \<notin> fst ` set lhs \<longrightarrow> r \<in> set (mergePayoffs lhs rhs))
       \<and> (\<forall>l \<in> set lhs. \<forall>r \<in> set rhs. fst l = fst r \<longrightarrow>
             (fst l, crossSum (snd l) (snd r)) \<in> set (mergePayoffs lhs rhs))
       \<and> distinct (map fst (mergePayoffs lhs rhs))
       \<and> fst ` set (mergePayoffs lhs rhs) = fst ` set lhs \<union> fst ` set rhs
       \<and> mergePayoffs [(tg, [(e1, (2, 0))])] [(tg, [(e2, (3, 0))])]
            = [(tg, [(merge e1 e2, (5, 0))])]"
proof -
  let ?m = "mergePayoffs lhs rhs"
  note mo = mergePayoffs_map_of [OF assms]
  have mem: "(t, es) \<in> set ?m \<longleftrightarrow> joinRules lhs rhs t = Some es" for t es
    using mo(1) [of t] map_of_eq_Some_iff [OF mo(2), of t es] by simp
  have ml: "(t, es) \<in> set lhs \<longleftrightarrow> map_of lhs t = Some es" for t es
    using map_of_eq_Some_iff [OF assms(3), of t es] by simp
  have mr: "(t, es) \<in> set rhs \<longleftrightarrow> map_of rhs t = Some es" for t es
    using map_of_eq_Some_iff [OF assms(4), of t es] by simp
  have 1: "\<forall>r \<in> set lhs. fst r \<notin> fst ` set rhs \<longrightarrow> r \<in> set ?m"
  proof (intro ballI impI)
    fix r assume r: "r \<in> set lhs" and n: "fst r \<notin> fst ` set rhs"
    from r have "map_of lhs (fst r) = Some (snd r)" using ml [of "fst r" "snd r"] by simp
    moreover from n have "map_of rhs (fst r) = None" by (simp add: map_of_eq_None_iff)
    ultimately have "joinRules lhs rhs (fst r) = Some (snd r)" by (simp add: joinRules_def)
    then show "r \<in> set ?m" using mem [of "fst r" "snd r"] by simp
  qed
  have 2: "\<forall>r \<in> set rhs. fst r \<notin> fst ` set lhs \<longrightarrow> r \<in> set ?m"
  proof (intro ballI impI)
    fix r assume r: "r \<in> set rhs" and n: "fst r \<notin> fst ` set lhs"
    from r have "map_of rhs (fst r) = Some (snd r)" using mr [of "fst r" "snd r"] by simp
    moreover from n have "map_of lhs (fst r) = None" by (simp add: map_of_eq_None_iff)
    ultimately have "joinRules lhs rhs (fst r) = Some (snd r)" by (simp add: joinRules_def)
    then show "r \<in> set ?m" using mem [of "fst r" "snd r"] by simp
  qed
  have 3: "\<forall>l \<in> set lhs. \<forall>r \<in> set rhs. fst l = fst r \<longrightarrow>
             (fst l, crossSum (snd l) (snd r)) \<in> set ?m"
  proof (intro ballI impI)
    fix l r assume l: "l \<in> set lhs" and r: "r \<in> set rhs" and e: "fst l = fst r"
    from l have "map_of lhs (fst l) = Some (snd l)" using ml [of "fst l" "snd l"] by simp
    moreover from r e have "map_of rhs (fst l) = Some (snd r)" using mr [of "fst r" "snd r"] by simp
    ultimately have "joinRules lhs rhs (fst l) = Some (crossSum (snd l) (snd r))"
      by (simp add: joinRules_def)
    then show "(fst l, crossSum (snd l) (snd r)) \<in> set ?m" using mem by simp
  qed
  have 5: "fst ` set ?m = fst ` set lhs \<union> fst ` set rhs"
  proof -
    have "t \<in> fst ` set ?m \<longleftrightarrow> t \<in> fst ` set lhs \<union> fst ` set rhs" for t
    proof -
      have "t \<in> fst ` set ?m \<longleftrightarrow> map_of ?m t \<noteq> None" by (simp add: map_of_eq_None_iff)
      also have "\<dots> \<longleftrightarrow> map_of lhs t \<noteq> None \<or> map_of rhs t \<noteq> None"
        unfolding mo(1) by (auto simp: joinRules_def split: option.splits)
      also have "\<dots> \<longleftrightarrow> t \<in> fst ` set lhs \<union> fst ` set rhs"
        by (simp add: map_of_eq_None_iff)
      finally show ?thesis .
    qed
    then show ?thesis by blast
  qed
  from 1 2 3 mo(2) 5 mergePayoffs_single show ?thesis by blast
qed

theorem mergePayoffs_correct_witness:
  "scoped [0] [(([0], [0]), [(([], []), (2, 0))]), (([0], [1]), [(([], []), (7, 0))])]
   \<and> scoped [0] [(([0], [0]), [(([], []), (3, 0))])]
   \<and> (([0], [0]), [(([], []), (5, 0))])
        \<in> set (mergePayoffs [(([0], [0]), [(([], []), (2, 0))]), (([0], [1]), [(([], []), (7, 0))])]
                  [(([0], [0]), [(([], []), (3, 0))])])
   \<and> (([0], [1]), [(([], []), (7, 0))])
        \<in> set (mergePayoffs [(([0], [0]), [(([], []), (2, 0))]), (([0], [1]), [(([], []), (7, 0))])]
                  [(([0], [0]), [(([], []), (3, 0))])])"
proof -
  let ?l = "[(([0], [0]), [(([], []), (2, 0))]), (([0], [1]), [(([], []), (7, 0))])] :: Rules"
  let ?r = "[(([0], [0]), [(([], []), (3, 0))])] :: Rules"
  have a: "scoped [0] ?l" and b: "scoped [0] ?r" by (simp_all add: scoped_def)
  have c: "distinct (map fst ?l)" and d: "distinct (map fst ?r)" by simp_all
  from mergePayoffs_correct [OF a b c d]
  have 1: "\<forall>r \<in> set ?l. fst r \<notin> fst ` set ?r \<longrightarrow> r \<in> set (mergePayoffs ?l ?r)"
    and 3: "\<forall>l \<in> set ?l. \<forall>r \<in> set ?r. fst l = fst r \<longrightarrow>
             (fst l, crossSum (snd l) (snd r)) \<in> set (mergePayoffs ?l ?r)"
    by blast+
  from 1 have p: "(([0], [1]), [(([], []), (7, 0))]) \<in> set (mergePayoffs ?l ?r)" by simp
  from 3 have "(([0], [0]), crossSum [(([], []), (2, 0))] [(([], []), (3, 0))]) \<in> set (mergePayoffs ?l ?r)"
    by simp
  then have q: "(([0], [0]), [(([], []), (5, 0))]) \<in> set (mergePayoffs ?l ?r)"
    by (simp add: crossSum_def crossLoop_def crossEntry_def vadd_def merge_def)
  from a b p q show ?thesis by blast
qed

text \<open>
  The claim C4 as it is worded, for every two rule tables, fails in two ways. The
  tables are compared by the action vectors of the tags only: two rules with the different
  tags \<open>([0], [1])\<close> and \<open>([1], [1])\<close> are cross-summed under the left tag, and the right
  rule, whose tag occurs on one side only, is not passed through. And a table with two
  rules under one tag, merged with a table holding that tag, yields two rules under
  that tag.
\<close>

theorem mergePayoffs_counterexample:
  "([1], [1]) \<notin> fst ` set ([(([0], [1]), [(([], []), (2, 0))])] :: Rules)
   \<and> mergePayoffs [(([0], [1]), [(([], []), (2, 0))])] [(([1], [1]), [(([], []), (3, 0))])]
        = [(([0], [1]), [(([], []), (5, 0))])]
   \<and> (([1], [1]), [(([], []), (3, 0))])
        \<notin> set (mergePayoffs [(([0], [1]), [(([], []), (2, 0))])] [(([1], [1]), [(([], []), (3, 0))])])
   \<and> mergePayoffs [(([0], [0]), [(([], []), (2, 0))]), (([0], [0]), [(([], []), (7, 0))])]
                    [(([0], [0]), [(([], []), (3, 0))])]
        = [(([0], [0]), [(([], []), (5, 0))]), (([0], [0]), [(([], []), (7, 0))])]"
  by (simp add: mergePayoffs_def sortBy_def ruleComp_def crossSum_def crossLoop_def
      crossEntry_def vadd_def merge_def)

section \<open>Properties of the drivers\<close>

lemma computeValue_coeff0: "computeValue e x 0 = fst (snd e)"
  by (simp add: computeValue_def)

lemma upt2: "[0..<2] = [0, Suc 0]"
  by (simp add: upt_rec)

lemma eliminate_step:
  "variableSize (ucve_graph st) = Suc n \<Longrightarrow> eliminate st = eliminate (removeAgent n st)"
  by (subst eliminate.simps) simp

lemma eliminate_done:
  "variableSize (ucve_graph st) = 0 \<Longrightarrow> eliminate st = st"
  by (subst eliminate.simps) simp

lemma scenario_step1: "removeAgent 1 scenario = scenario1"
  by (simp add: removeAgent_def scenario_def scenario1_def mkUCVE_def scenarioRules_def Let_def
      getNeighborsOfAgent_def getNeighborsOfFactors_def upperBound_def lowerBound_def
      jointActions_def jointStep_def agentValues_def combineFactors_def getPayoffs_def
      match_def addTag_def removeFactor_def getFactorToSkipId_def eraseAgentAndFactors_def
      updateFactor_def mergePayoffs_def sortBy_def ruleComp_def upt2)


lemma scenario_step2: "removeAgent 0 scenario1 = scenario2"
  by (simp add: removeAgent_def scenario1_def scenario2_def Let_def
      getNeighborsOfAgent_def getNeighborsOfFactors_def upperBound_def lowerBound_def
      jointActions_def jointStep_def agentValues_def combineFactors_def getPayoffs_def
      match_def addTag_def removeFactor_def getFactorToSkipId_def eraseAgentAndFactors_def
      updateFactor_def mergePayoffs_def sortBy_def ruleComp_def upt2)

lemma scenario_eliminate: "eliminate scenario = scenario2"
proof -
  have "variableSize (ucve_graph scenario) = Suc 1"
    by (simp add: scenario_def mkUCVE_def variableSize_def)
  then have "eliminate scenario = eliminate (removeAgent 1 scenario)"
    by (rule eliminate_step)
  also have "removeAgent 1 scenario = scenario1" by (rule scenario_step1)
  also have "eliminate scenario1 = eliminate (removeAgent 0 scenario1)"
    by (rule eliminate_step) (simp add: scenario1_def variableSize_def)
  also have "removeAgent 0 scenario1 = scenario2" by (rule scenario_step2)
  also have "eliminate scenario2 = scenario2"
    by (rule eliminate_done) (simp add: scenario2_def variableSize_def)
  finally show ?thesis .
qed

lemma lowest_less_5: "lowest < 5"
  by (simp add: lowest_def dbl_max_def)

lemma scenario_combine: "combineFinal scenario2 = [(([0, 1], [1, 0]), (5, 0))]"
  by (simp add: combineFinal_def scenario2_def crossSum_def boundPrune_def sortBy_def
      computeValue_coeff0)

text \<open>
  C2. On the end-to-end scenario \<open>start\<close> returns the entry whose tag is the joint action
  in which agent \<open>0\<close> takes action \<open>1\<close> and agent \<open>1\<close> takes action \<open>0\<close>, with the mean \<open>5\<close>.
\<close>

theorem start_scenario: "start scenario = Chosen (([0, 1], [1, 0]), (5, 0))"
proof -
  have "ucve_finalFactors scenario2 \<noteq> []" by (simp add: scenario2_def)
  then have "start scenario = selectBest (combineFinal scenario2)"
    by (simp add: start_def scenario_eliminate)
  also have "\<dots> = Chosen (([0, 1], [1, 0]), (5, 0))"
    by (simp add: scenario_combine selectBest_def selectStep_def computeValue_coeff0 lowest_less_5)
  finally show ?thesis .
qed

text \<open>
  C9. When the graph holds no agent at the start and no final factor has been
  accumulated, the elimination loop runs zero steps and \<open>start\<close> returns the empty
  default result.
\<close>

theorem start_empty_graph:
  assumes "variableSize (ucve_graph st) = 0" and "ucve_finalFactors st = []"
  shows "start st = EmptyResult"
  using assms by (simp add: start_def eliminate_done)

theorem start_empty_graph_witness:
  "variableSize (ucve_graph (mkUCVE [] 2 [])) = 0
   \<and> ucve_finalFactors (mkUCVE [] 2 []) = []
   \<and> start (mkUCVE [] 2 []) = EmptyResult"
proof -
  have a: "variableSize (ucve_graph (mkUCVE [] 2 [])) = 0"
    by (simp add: mkUCVE_def variableSize_def)
  have b: "ucve_finalFactors (mkUCVE [] 2 []) = []"
    by (simp add: mkUCVE_def)
  from a b start_empty_graph [OF a b] show ?thesis by simp
qed

lemma degenerate_step: "removeAgent 0 degenerate = degenerate1"
  by (simp add: removeAgent_def degenerate_def degenerate1_def mkUCVE_def Let_def
      getNeighborsOfAgent_def getNeighborsOfFactors_def upperBound_def lowerBound_def
      jointActions_def jointStep_def agentValues_def combineFactors_def getPayoffs_def
      match_def addTag_def removeFactor_def getFactorToSkipId_def eraseAgentAndFactors_def)

lemma degenerate_eliminate: "eliminate degenerate = degenerate1"
proof -
  have "variableSize (ucve_graph degenerate) = Suc 0"
    by (simp add: degenerate_def mkUCVE_def variableSize_def)
  then have "eliminate degenerate = eliminate (removeAgent 0 degenerate)"
    by (rule eliminate_step)
  also have "\<dots> = eliminate degenerate1" by (simp only: degenerate_step)
  also have "\<dots> = degenerate1"
    by (rule eliminate_done) (simp add: degenerate1_def variableSize_def)
  finally show ?thesis .
qed

lemma degenerate_finalFactors:
  "ucve_finalFactors degenerate1 = [[(([0], [0]), (lowest, 0))]]"
  by (simp add: degenerate1_def)

lemma degenerate_combine: "combineFinal degenerate1 = [(([0], [0]), (lowest, 0))]"
  by (simp add: combineFinal_def degenerate1_def crossSum_def boundPrune_def)

lemma degenerate_select: "selectBest [(([0], [0]), (lowest, 0))] = Unset"
  by (simp add: selectBest_def selectStep_def computeValue_coeff0)

lemma degenerate_start: "start degenerate = selectBest [(([0], [0]), (lowest, 0))]"
  by (simp add: start_def degenerate_eliminate degenerate_finalFactors degenerate_combine)

text \<open>
  C10. After the elimination of the single agent of \<open>degenerate\<close> the accumulator holds
  one non-empty final factor and the combined list holds its entry. The value of that
  entry at slack \<open>0\<close> and coefficient \<open>0\<close> is \<^verbatim>\<open>lowest()\<close>, which is not strictly greater
  than the initial \<open>max\<close>: the selection loop never assigns \<^verbatim>\<open>retval\<close>, and \<open>start\<close>
  dereferences the unassigned iterator.
\<close>

theorem start_unset_at_lowest:
  "ucve_finalFactors (eliminate degenerate) = [[(([0], [0]), (lowest, 0))]]
   \<and> combineFinal (eliminate degenerate) = [(([0], [0]), (lowest, 0))]
   \<and> start degenerate = Unset"
  by (simp add: degenerate_eliminate degenerate_finalFactors degenerate_combine
      degenerate_start degenerate_select)

text \<open>
  C7. The selection loop compares the entries by their value at slack \<open>0\<close> and
  coefficient \<open>0\<close>, which is the mean, and keeps the first entry of largest mean, provided
  some mean is above \<^verbatim>\<open>lowest()\<close> (\<open>selectBest_max\<close> and \<open>start_selects_max_mean\<close> below). The
  claim is for every run in which final factors exist, and there the code misses it:
  on \<open>degenerate\<close> a final factor exists, the combined list holds exactly the entry with the
  mean \<^verbatim>\<open>lowest()\<close>, which is the entry of largest mean, and \<open>start\<close> returns no entry of
  the combined list. (Pruning with the equal bounds \<open>0\<close> and \<open>0\<close> leaves at most one entry in
  the combined list, \<open>combineFinal_length\<close> below, so the selection is always over at
  most one entry.)
\<close>

theorem start_misses_maximiser:
  "ucve_finalFactors (eliminate degenerate) \<noteq> []
   \<and> set (combineFinal (eliminate degenerate)) = {(([0], [0]), (lowest, 0))}
   \<and> start degenerate \<noteq> Chosen (([0], [0]), (lowest, 0))
   \<and> (\<forall>e. start degenerate \<noteq> Chosen e)"
  by (simp add: degenerate_eliminate degenerate_finalFactors degenerate_combine
      degenerate_start degenerate_select)

lemma selectStep_inv:
  assumes "\<forall>x \<in> S. computeValue x 0 0 \<le> fst acc"
    and "(snd acc = None \<and> fst acc = lowest)
         \<or> (\<exists>b \<in> S. snd acc = Some b \<and> computeValue b 0 0 = fst acc)"
  shows "(\<forall>x \<in> insert e S. computeValue x 0 0 \<le> fst (selectStep acc e))
       \<and> ((snd (selectStep acc e) = None \<and> fst (selectStep acc e) = lowest)
          \<or> (\<exists>b \<in> insert e S. snd (selectStep acc e) = Some b
                \<and> computeValue b 0 0 = fst (selectStep acc e)))"
proof (cases "computeValue e 0 0 > fst acc")
  case True
  then have s: "selectStep acc e = (computeValue e 0 0, Some e)"
    by (simp add: selectStep_def)
  from True assms(1) have "\<forall>x \<in> S. computeValue x 0 0 \<le> computeValue e 0 0"
    by fastforce
  then show ?thesis unfolding s by simp
next
  case False
  then have s: "selectStep acc e = acc" by (simp add: selectStep_def)
  from False assms show ?thesis unfolding s by auto
qed

lemma select_fold_inv:
  assumes "\<forall>x \<in> S. computeValue x 0 0 \<le> fst acc"
    and "(snd acc = None \<and> fst acc = lowest)
         \<or> (\<exists>b \<in> S. snd acc = Some b \<and> computeValue b 0 0 = fst acc)"
  shows "(\<forall>x \<in> S \<union> set xs. computeValue x 0 0 \<le> fst (foldl selectStep acc xs))
       \<and> ((snd (foldl selectStep acc xs) = None \<and> fst (foldl selectStep acc xs) = lowest)
          \<or> (\<exists>b \<in> S \<union> set xs. snd (foldl selectStep acc xs) = Some b
                \<and> computeValue b 0 0 = fst (foldl selectStep acc xs)))"
  using assms
proof (induction xs arbitrary: S acc)
  case Nil
  then show ?case by simp
next
  case (Cons e xs)
  from selectStep_inv [OF Cons.prems, of e]
  have a: "\<forall>x \<in> insert e S. computeValue x 0 0 \<le> fst (selectStep acc e)"
    and b: "(snd (selectStep acc e) = None \<and> fst (selectStep acc e) = lowest)
          \<or> (\<exists>b \<in> insert e S. snd (selectStep acc e) = Some b
                \<and> computeValue b 0 0 = fst (selectStep acc e))"
    by blast+
  from Cons.IH [OF a b] show ?case by simp
qed

lemma selectBest_max:
  assumes "\<exists>e \<in> set xs. lowest < fst (snd e)"
  shows "\<exists>e. selectBest xs = Chosen e \<and> e \<in> set xs
          \<and> (\<forall>e' \<in> set xs. fst (snd e') \<le> fst (snd e))"
proof -
  let ?r = "foldl selectStep (lowest, None) xs"
  from select_fold_inv [of "{}" "(lowest, None)" xs]
  have a: "\<forall>x \<in> set xs. computeValue x 0 0 \<le> fst ?r"
    and b: "(snd ?r = None \<and> fst ?r = lowest)
          \<or> (\<exists>b \<in> set xs. snd ?r = Some b \<and> computeValue b 0 0 = fst ?r)"
    by simp_all
  from assms obtain e where e: "e \<in> set xs" and l: "lowest < fst (snd e)" by blast
  from a e have "fst (snd e) \<le> fst ?r" by (simp add: computeValue_coeff0)
  with l have "fst ?r \<noteq> lowest" by simp
  with b obtain b' where s: "snd ?r = Some b'" and bin: "b' \<in> set xs"
    and bv: "computeValue b' 0 0 = fst ?r"
    by blast
  from s have "selectBest xs = Chosen b'" by (simp add: selectBest_def)
  moreover from a bv have "\<forall>e' \<in> set xs. fst (snd e') \<le> fst (snd b')"
    by (simp add: computeValue_coeff0)
  ultimately show ?thesis using bin by blast
qed

text \<open>
  In every run in which final factors exist and the selection loop assigns its choice
  (some entry of the combined list has a mean above \<^verbatim>\<open>lowest()\<close>), \<open>start\<close> returns an
  entry of the cross-summed and pruned combination of the final factors whose mean is
  largest among the entries of that combination; the value the selection compares, at
  slack \<open>0\<close> and coefficient \<open>0\<close>, is the mean itself, with no exploration term.
\<close>

lemma start_selects_max_mean:
  assumes "ucve_finalFactors (eliminate st) \<noteq> []"
    and "\<exists>e \<in> set (combineFinal (eliminate st)). lowest < fst (snd e)"
  shows "\<exists>e. start st = Chosen e
          \<and> e \<in> set (combineFinal (eliminate st))
          \<and> (\<forall>e' \<in> set (combineFinal (eliminate st)). fst (snd e') \<le> fst (snd e))
          \<and> computeValue e 0 0 = fst (snd e)"
proof -
  from assms(1) have "start st = selectBest (combineFinal (eliminate st))"
    by (simp add: start_def)
  with selectBest_max [OF assms(2)] show ?thesis
    by (auto simp: computeValue_coeff0)
qed

lemma start_selects_max_mean_scenario:
  "ucve_finalFactors (eliminate scenario) \<noteq> []
   \<and> (\<exists>e. start scenario = Chosen e \<and> e \<in> set (combineFinal (eliminate scenario))
          \<and> fst (snd e) = 5)"
proof -
  have a: "ucve_finalFactors (eliminate scenario) \<noteq> []"
    by (simp add: scenario_eliminate scenario2_def)
  have b: "\<exists>e \<in> set (combineFinal (eliminate scenario)). lowest < fst (snd e)"
    by (simp add: scenario_eliminate scenario_combine lowest_less_5)
  from start_selects_max_mean [OF a b]
  obtain e where "start scenario = Chosen e" and "e \<in> set (combineFinal (eliminate scenario))"
    by blast
  moreover from this(2) have "fst (snd e) = 5"
    by (simp add: scenario_eliminate scenario_combine)
  ultimately show ?thesis using a by blast
qed

text \<open>
  The non-emptiness invariants behind the final selection: every final factor appended
  by \<open>removeAgent\<close> is non-empty, pruning a non-empty list leaves it non-empty, and so
  the combined list is non-empty whenever a final factor exists.
\<close>

lemma jointStep_nonempty:
  "list_all (\<lambda>f. f \<noteq> []) (snd acc) \<Longrightarrow>
   list_all (\<lambda>f. f \<noteq> []) (snd (jointStep A x_l x_u c factors agents agent fin acc acts))"
  by (simp add: jointStep_def Let_def)

lemma foldl_jointStep_nonempty:
  "list_all (\<lambda>f. f \<noteq> []) (snd acc) \<Longrightarrow>
   list_all (\<lambda>f. f \<noteq> [])
     (snd (foldl (jointStep A x_l x_u c factors agents agent fin) acc jas))"
  by (induction jas arbitrary: acc) (simp_all add: jointStep_nonempty)

lemma removeAgent_finalFactors_nonempty:
  "list_all (\<lambda>f. f \<noteq> []) (ucve_finalFactors st) \<Longrightarrow>
   list_all (\<lambda>f. f \<noteq> []) (ucve_finalFactors (removeAgent agent st))"
  by (simp add: removeAgent_def Let_def foldl_jointStep_nonempty)

lemma eliminate_finalFactors_nonempty:
  "list_all (\<lambda>f. f \<noteq> []) (ucve_finalFactors st) \<Longrightarrow>
   list_all (\<lambda>f. f \<noteq> []) (ucve_finalFactors (eliminate st))"
proof (induction st rule: eliminate.induct)
  case (1 st)
  show ?case
  proof (cases "variableSize (ucve_graph st) = 0")
    case True
    with 1(2) show ?thesis by (simp add: eliminate_done)
  next
    case False
    from 1(1) [OF False removeAgent_finalFactors_nonempty [OF 1(2)]]
    show ?thesis using False by (subst eliminate.simps) simp
  qed
qed

lemma boundPrune_nonempty: "xs \<noteq> [] \<Longrightarrow> boundPrune x_l x_u c xs \<noteq> []"
proof (cases "2 \<le> length xs")
  case True
  from boundPrune_shape [OF True, of x_l c x_u] show ?thesis by auto
next
  case False
  assume "xs \<noteq> []"
  with False show ?thesis by (simp add: boundPrune_def)
qed

lemma crossSum_nonempty: "rhs \<noteq> [] \<Longrightarrow> crossSum lhs rhs \<noteq> []"
proof -
  assume r: "rhs \<noteq> []"
  have "length (crossLoop lhs rhs) = length lhs * length rhs"
    unfolding crossLoop_def by (rule length_concat_uniform)
  with r show ?thesis by (auto simp: crossSum_def)
qed

lemma combineFinal_nonempty:
  assumes "ucve_finalFactors st \<noteq> []" and "list_all (\<lambda>f. f \<noteq> []) (ucve_finalFactors st)"
  shows "combineFinal st \<noteq> []"
proof -
  from assms(1) obtain fs f where ff: "ucve_finalFactors st = fs @ [f]"
    by (cases "ucve_finalFactors st" rule: rev_cases) auto
  with assms(2) have "f \<noteq> []" by simp
  then show ?thesis
    by (simp add: combineFinal_def ff boundPrune_nonempty crossSum_nonempty)
qed

lemma results_nonempty:
  assumes "ucve_finalFactors (eliminate (mkUCVE a c nodes)) \<noteq> []"
  shows "combineFinal (eliminate (mkUCVE a c nodes)) \<noteq> []"
proof -
  have "list_all (\<lambda>f. f \<noteq> []) (ucve_finalFactors (mkUCVE a c nodes))"
    by (simp add: mkUCVE_def)
  then have "list_all (\<lambda>f. f \<noteq> []) (ucve_finalFactors (eliminate (mkUCVE a c nodes)))"
    by (rule eliminate_finalFactors_nonempty)
  with assms show ?thesis by (rule combineFinal_nonempty)
qed

text \<open>
  Pruning with equal bounds keeps the best-ranked entry only, so the combination of the
  final factors holds at most one entry.
\<close>

lemma boundPrune_equal_bounds_length: "length (boundPrune x x c xs) \<le> 1"
proof (cases "2 \<le> length xs")
  case True
  from boundPrune_shape [OF True, of x c x]
  obtain b zs where z: "set zs \<subseteq> set xs"
    and best: "\<forall>e \<in> set xs. computeValue e x c \<le> computeValue b x c"
    and bp: "boundPrune x x c xs
               = b # filter (\<lambda>e. \<not> computeValue e x c \<le> computeValue b x c) zs"
    by blast
  from z best have "filter (\<lambda>e. \<not> computeValue e x c \<le> computeValue b x c) zs = []"
    by (auto simp: filter_empty_conv)
  with bp show ?thesis by simp
next
  case False
  then show ?thesis by (simp add: boundPrune_def)
qed

lemma combineFinal_length: "length (combineFinal st) \<le> 1"
proof (cases "ucve_finalFactors st" rule: rev_cases)
  case Nil
  then show ?thesis by (simp add: combineFinal_def)
next
  case (snoc fs f)
  have "combineFinal st
          = boundPrune 0 0 (ucve_logtA st)
              (crossSum
                 (foldl (\<lambda>results fValue. boundPrune 0 0 (ucve_logtA st) (crossSum results fValue))
                    [] fs) f)"
    by (simp add: combineFinal_def snoc)
  then show ?thesis by (simp only: boundPrune_equal_bounds_length)
qed

end
